theory Spec2Isabelle
  imports Complex_Main "HOL-Library.Word"
begin

unbundle bit_operations_syntax

section \<open>Errors and platform primitives\<close>

text \<open>
  Every exception the modelled code can raise is a value of \<open>error\<close>; a function that
  can throw (or an async function whose promise can reject) returns \<open>error + 'a\<close>,
  with \<open>Inl\<close> for the exception.  The constructors are the exception names of the
  platform: \<open>atob\<close> throws \<open>InvalidCharacterError\<close>, the \<open>Int16Array\<close> constructor
  throws \<open>RangeError\<close>, \<open>createBuffer\<close> throws \<open>NotSupportedError\<close>, \<open>stop\<close> on a
  source that was never started throws \<open>InvalidStateError\<close>, a property read on
  \<open>undefined\<close> throws \<open>TypeError\<close> and \<open>JSON.parse\<close> throws \<open>SyntaxError\<close>.
\<close>

datatype error =
    InvalidCharacterError
  | RangeError
  | NotSupportedError
  | InvalidStateError
  | TypeError
  | SyntaxError

type_synonym byte = "8 word"

subsection \<open>The base64 alphabet\<close>

definition b64_alphabet :: string where
  "b64_alphabet = ''ABCDEFGHIJKLMNOPQRSTUVWXYZabcdefghijklmnopqrstuvwxyz0123456789+/''"

definition b64_char :: "nat \<Rightarrow> char" where
  "b64_char n = b64_alphabet ! n"

fun index_of :: "'a \<Rightarrow> 'a list \<Rightarrow> nat option" where
  "index_of x [] = None"
| "index_of x (y # ys) =
     (if x = y then Some 0
      else (case index_of x ys of None \<Rightarrow> None | Some i \<Rightarrow> Some (Suc i)))"

definition b64_value :: "char \<Rightarrow> nat option" where
  "b64_value c = index_of c b64_alphabet"

subsection \<open>\<open>btoa\<close>: the platform's base64 encoder\<close>

text \<open>
  \<open>btoa\<close> and \<open>atob\<close> are browser built-ins, modelled after the HTML standard
  (forgiving-base64 encode and decode).  A binary string is a \<open>string\<close>: its characters
  have codes 0 to 255, which is all that \<open>String.fromCharCode\<close> of a byte and \<open>atob\<close>
  produce, so the branch of \<open>btoa\<close> that throws on a code above 255 cannot be reached
  from \<open>encode\<close>.  Three input bytes become four alphabet characters; a final group of
  one or two bytes is padded with \<open>=\<close> to four characters.
\<close>

fun b64_encode_groups :: "nat list \<Rightarrow> string" where
  "b64_encode_groups (a # b # c # rest) =
     [b64_char (a div 4), b64_char ((a mod 4) * 16 + b div 16),
      b64_char ((b mod 16) * 4 + c div 64), b64_char (c mod 64)] @ b64_encode_groups rest"
| "b64_encode_groups [a, b] =
     [b64_char (a div 4), b64_char ((a mod 4) * 16 + b div 16),
      b64_char ((b mod 16) * 4), CHR ''='']"
| "b64_encode_groups [a] =
     [b64_char (a div 4), b64_char ((a mod 4) * 16), CHR ''='', CHR ''='']"
| "b64_encode_groups [] = []"

definition btoa :: "string \<Rightarrow> string" where
  "btoa s = b64_encode_groups (map of_char s)"

text \<open>The six-bit values of the encoding without its padding.\<close>

fun b64_sextets :: "nat list \<Rightarrow> nat list" where
  "b64_sextets (a # b # c # rest) =
     [a div 4, (a mod 4) * 16 + b div 16, (b mod 16) * 4 + c div 64, c mod 64] @ b64_sextets rest"
| "b64_sextets [a, b] = [a div 4, (a mod 4) * 16 + b div 16, (b mod 16) * 4]"
| "b64_sextets [a] = [a div 4, (a mod 4) * 16]"
| "b64_sextets [] = []"

subsection \<open>\<open>atob\<close>: the platform's forgiving base64 decoder\<close>

text \<open>
  The steps of forgiving-base64 decode: remove ASCII whitespace (tab, line feed, form
  feed, carriage return, space); if the length is then a multiple of 4, remove one or
  two trailing \<open>=\<close>; fail if the length is 1 modulo 4; fail if a character outside the
  alphabet remains; decode six bits per character, dropping the 4 or 2 surplus bits of
  a final group of two or three characters.  A base64 text is a \<open>string\<close>; a code unit
  above 255 is outside the alphabet like any other foreign character and is not
  represented.
\<close>

definition ascii_whitespace :: "char \<Rightarrow> bool" where
  "ascii_whitespace c \<longleftrightarrow> c \<in> set [CHR 0x09, CHR 0x0A, CHR 0x0C, CHR 0x0D, CHR 0x20]"

definition strip_padding :: "string \<Rightarrow> string" where
  "strip_padding s =
     (case rev s of
        c1 # c2 # r \<Rightarrow>
          (if c1 = CHR ''='' then (if c2 = CHR ''='' then rev r else rev (c2 # r)) else s)
      | [c1] \<Rightarrow> (if c1 = CHR ''='' then [] else s)
      | [] \<Rightarrow> s)"

fun b64_decode_groups :: "nat list \<Rightarrow> nat list" where
  "b64_decode_groups (a # b # c # d # rest) =
     [a * 4 + b div 16, (b mod 16) * 16 + c div 4, (c mod 4) * 64 + d] @ b64_decode_groups rest"
| "b64_decode_groups [a, b, c] = [a * 4 + b div 16, (b mod 16) * 16 + c div 4]"
| "b64_decode_groups [a, b] = [a * 4 + b div 16]"
| "b64_decode_groups [a] = []"
| "b64_decode_groups [] = []"

definition atob :: "string \<Rightarrow> error + string" where
  "atob data =
     (let d1 = filter (\<lambda>c. \<not> ascii_whitespace c) data;
          d2 = (if length d1 mod 4 = 0 then strip_padding d1 else d1)
      in if length d2 mod 4 = 1 then Inl InvalidCharacterError
         else if list_ex (\<lambda>c. b64_value c = None) d2 then Inl InvalidCharacterError
         else Inr (map char_of (b64_decode_groups (map (\<lambda>c. the (b64_value c)) d2))))"

section \<open>Audio codec adapter (\<open>services/geminiService.ts\<close>)\<close>

text \<open>
  \<open>encode\<close> appends \<open>String.fromCharCode(bytes[i])\<close> for each index to a binary
  string and passes it to \<open>btoa\<close>; \<open>decode\<close> runs \<open>atob\<close> and stores
  \<open>charCodeAt(i)\<close> of each character in a fresh \<open>Uint8Array\<close>.
\<close>

definition fromCharCode :: "byte \<Rightarrow> char" where
  "fromCharCode b = char_of (unat b)"

definition charCodeAt :: "char \<Rightarrow> byte" where
  "charCodeAt c = of_nat (of_char c)"

fun encode_loop :: "byte list \<Rightarrow> string \<Rightarrow> string" where
  "encode_loop [] binary = binary"
| "encode_loop (b # bytes) binary = encode_loop bytes (binary @ [fromCharCode b])"

definition encode :: "byte list \<Rightarrow> string" where
  "encode bytes = btoa (encode_loop bytes [])"

fun decode_loop :: "string \<Rightarrow> byte list \<Rightarrow> byte list" where
  "decode_loop [] bytes = bytes"
| "decode_loop (c # binaryString) bytes = decode_loop binaryString (bytes @ [charCodeAt c])"

definition decode :: "string \<Rightarrow> error + byte list" where
  "decode base64 =
     (case atob base64 of
        Inl e \<Rightarrow> Inl e
      | Inr binaryString \<Rightarrow> Inr (decode_loop binaryString []))"

subsection \<open>Numbers and typed arrays\<close>

text \<open>
  A sample of a \<open>Float32Array\<close> is a finite value, an infinity or NaN.  Finite values
  are reals: a 32-bit float has a 24-bit significand, so its product with \<open>0x7FFF\<close>
  (15 bits) and the quotient of a 16-bit integer by \<open>32768\<close> are exact in double
  precision, and the arithmetic below is the arithmetic of the program.  The sign of
  zero is not represented (both zeros convert to the integer 0).
\<close>

datatype number = Finite real | PosInf | NegInf | NaN

fun Math_min :: "number \<Rightarrow> number \<Rightarrow> number" where
  "Math_min NaN y = NaN"
| "Math_min x NaN = NaN"
| "Math_min NegInf y = NegInf"
| "Math_min x NegInf = NegInf"
| "Math_min PosInf y = y"
| "Math_min x PosInf = x"
| "Math_min (Finite a) (Finite b) = Finite (min a b)"

fun Math_max :: "number \<Rightarrow> number \<Rightarrow> number" where
  "Math_max NaN y = NaN"
| "Math_max x NaN = NaN"
| "Math_max PosInf y = PosInf"
| "Math_max x PosInf = PosInf"
| "Math_max NegInf y = y"
| "Math_max x NegInf = x"
| "Math_max (Finite a) (Finite b) = Finite (max a b)"

fun times_number :: "number \<Rightarrow> number \<Rightarrow> number" where
  "times_number NaN y = NaN"
| "times_number x NaN = NaN"
| "times_number (Finite a) (Finite b) = Finite (a * b)"
| "times_number (Finite a) PosInf = (if a = 0 then NaN else if 0 < a then PosInf else NegInf)"
| "times_number (Finite a) NegInf = (if a = 0 then NaN else if 0 < a then NegInf else PosInf)"
| "times_number PosInf (Finite b) = (if b = 0 then NaN else if 0 < b then PosInf else NegInf)"
| "times_number NegInf (Finite b) = (if b = 0 then NaN else if 0 < b then NegInf else PosInf)"
| "times_number PosInf PosInf = PosInf"
| "times_number PosInf NegInf = NegInf"
| "times_number NegInf PosInf = NegInf"
| "times_number NegInf NegInf = PosInf"

text \<open>
  Storing a number in an \<open>Int16Array\<close> applies \<open>ToInt16\<close>: NaN and the infinities
  become 0, a finite value is truncated towards zero and reduced modulo \<open>2^16\<close>.
\<close>

definition truncate_number :: "real \<Rightarrow> int" where
  "truncate_number x = (if x < 0 then \<lceil>x\<rceil> else \<lfloor>x\<rfloor>)"

fun ToInt16 :: "number \<Rightarrow> 16 word" where
  "ToInt16 (Finite x) = word_of_int (truncate_number x)"
| "ToInt16 PosInf = 0"
| "ToInt16 NegInf = 0"
| "ToInt16 NaN = 0"

text \<open>
  A \<open>Uint8Array\<close> over the buffer of an \<open>Int16Array\<close> shows each element as two
  bytes, low byte first (the byte order of every platform the browsers run on); an
  \<open>Int16Array\<close> over a byte buffer reads them back the same way and throws
  \<open>RangeError\<close> when the byte length is odd.
\<close>

definition int16_bytes :: "16 word \<Rightarrow> byte list" where
  "int16_bytes w = [ucast w, ucast (drop_bit 8 w)]"

definition Uint8Array_of_Int16 :: "16 word list \<Rightarrow> byte list" where
  "Uint8Array_of_Int16 ws = concat (map int16_bytes ws)"

fun int16_view :: "byte list \<Rightarrow> 16 word list" where
  "int16_view (lo # hi # rest) = word_cat hi lo # int16_view rest"
| "int16_view [b] = []"
| "int16_view [] = []"

definition Int16Array :: "byte list \<Rightarrow> error + 16 word list" where
  "Int16Array buf = (if length buf mod 2 \<noteq> 0 then Inl RangeError else Inr (int16_view buf))"

text \<open>A write past the end of a typed array is ignored; a read past the end is
  \<open>undefined\<close>, and \<open>undefined / 32768.0\<close> is NaN.\<close>

definition typed_set :: "'a list \<Rightarrow> nat \<Rightarrow> 'a \<Rightarrow> 'a list" where
  "typed_set xs i v = (if i < length xs then xs[i := v] else xs)"

definition sample_at :: "16 word list \<Rightarrow> nat \<Rightarrow> number" where
  "sample_at dataInt16 k =
     (if k < length dataInt16 then Finite (real_of_int (sint (dataInt16 ! k)) / 32768) else NaN)"

subsection \<open>\<open>AudioBuffer\<close> and \<open>createBuffer\<close>\<close>

text \<open>
  \<open>createBuffer\<close> throws \<open>NotSupportedError\<close> when an argument is zero or outside
  its nominal range; the ranges here are the ones every implementation has to support
  (1 to 32 channels, 8000 to 96000 Hz).  A new buffer is filled with zeros.  The length
  argument is an unsigned long: a fractional frame count loses its fraction.
\<close>

record AudioBuffer =
  numberOfChannels :: nat
  buffer_length :: nat
  sampleRate :: real
  channelData :: "number list list"

definition duration :: "AudioBuffer \<Rightarrow> real" where
  "duration b = real (buffer_length b) / sampleRate b"

definition createBuffer :: "nat \<Rightarrow> nat \<Rightarrow> real \<Rightarrow> error + AudioBuffer" where
  "createBuffer numChannels len rate =
     (if numChannels = 0 \<or> 32 < numChannels \<or> len = 0 \<or> rate < 8000 \<or> 96000 < rate
      then Inl NotSupportedError
      else Inr \<lparr>numberOfChannels = numChannels, buffer_length = len, sampleRate = rate,
                channelData = replicate numChannels (replicate len (Finite 0))\<rparr>)"

subsection \<open>\<open>decodeAudioData\<close>\<close>

text \<open>
  \<open>frameCount\<close> is the quotient \<open>dataInt16.length / numChannels\<close>, a number that
  need not be whole.  The inner loop runs while \<open>i < frameCount\<close>, that is for
  \<open>i\<close> below the ceiling of the quotient.  With no channels the quotient is not finite
  and \<open>createBuffer\<close> throws before it is used.
\<close>

definition fill_channel :: "16 word list \<Rightarrow> nat \<Rightarrow> real \<Rightarrow> nat \<Rightarrow> number list \<Rightarrow> number list" where
  "fill_channel dataInt16 numChannels frameCount channel channelData0 =
     foldl (\<lambda>cd i. typed_set cd i (sample_at dataInt16 (i * numChannels + channel)))
       channelData0 [0..<nat \<lceil>frameCount\<rceil>]"

definition decodeAudioData :: "byte list \<Rightarrow> real \<Rightarrow> nat \<Rightarrow> error + AudioBuffer" where
  "decodeAudioData data rate numChannels =
     (case Int16Array data of
        Inl e \<Rightarrow> Inl e
      | Inr dataInt16 \<Rightarrow>
          (let frameCount = real (length dataInt16) / real numChannels
           in case createBuffer numChannels (nat \<lfloor>frameCount\<rfloor>) rate of
                Inl e \<Rightarrow> Inl e
              | Inr buffer \<Rightarrow>
                  Inr (buffer\<lparr>channelData :=
                    map (\<lambda>channel. fill_channel dataInt16 numChannels frameCount channel
                                     (channelData buffer ! channel))
                      [0..<numChannels]\<rparr>)))"

section \<open>Capture pipeline (\<open>onaudioprocess\<close> in \<open>App.tsx\<close>)\<close>

text \<open>
  Each sample is clamped with \<open>Math.max(-1, Math.min(1, x))\<close>, multiplied by
  \<open>0x7FFF\<close> and stored in an \<open>Int16Array\<close>; the bytes of that array are encoded and
  sent.  \<open>onaudioprocess\<close> returns the payload \<open>b64\<close> handed to \<open>sendRealtimeInput\<close>.
\<close>

definition to_pcm16 :: "number \<Rightarrow> 16 word" where
  "to_pcm16 x = ToInt16 (times_number (Math_max (Finite (- 1)) (Math_min (Finite 1) x)) (Finite 32767))"

fun pcm16_loop :: "number list \<Rightarrow> 16 word list" where
  "pcm16_loop [] = []"
| "pcm16_loop (x # inputData) = to_pcm16 x # pcm16_loop inputData"

definition onaudioprocess :: "number list \<Rightarrow> string" where
  "onaudioprocess inputData = encode (Uint8Array_of_Int16 (pcm16_loop inputData))"

section \<open>Playback scheduler and coach session (\<open>App.tsx\<close>)\<close>

text \<open>
  The refs of the component are the fields of \<open>player\<close>.  \<open>audioContextOut\<close> holds
  the output context's \<open>currentTime\<close> once \<open>initAudio\<close> has created it.  An
  \<open>AudioBufferSourceNode\<close> is identified by its index in \<open>nodes\<close>, the list of all
  nodes created so far; \<open>activeSources\<close> is the \<open>Set\<close> of nodes in insertion order.
  A session handle is the number of the connection that \<open>connectCoach\<close> opened;
  \<open>closedSessions\<close> lists the handles whose \<open>close\<close> was called.  Times are reals:
  the sums and maxima of the scheduler are computed without floating-point rounding.
\<close>

record source_node =
  buffer :: AudioBuffer
  startedAt :: "real option"
  stopped :: bool

record player =
  audioContextOut :: "real option"
  nextStartTime :: real
  activeSources :: "nat list"
  nodes :: "source_node list"
  coachActive :: bool
  sessionPromise :: "nat option"
  sessionCount :: nat
  closedSessions :: "nat list"

definition initial :: player where
  "initial = \<lparr>audioContextOut = None, nextStartTime = 0, activeSources = [], nodes = [],
     coachActive = False, sessionPromise = None, sessionCount = 0, closedSessions = []\<rparr>"

definition set_add :: "nat \<Rightarrow> nat list \<Rightarrow> nat list" where
  "set_add x xs = (if x \<in> set xs then xs else xs @ [x])"

definition set_delete :: "nat \<Rightarrow> nat list \<Rightarrow> nat list" where
  "set_delete x xs = filter (\<lambda>y. y \<noteq> x) xs"

text \<open>\<open>stop()\<close> on a node throws \<open>InvalidStateError\<close> unless \<open>start\<close> was called on
  it; \<open>forEach\<close> ends at the first exception and keeps the stops made so far.\<close>

definition stop_node :: "nat \<Rightarrow> source_node list \<Rightarrow> error + source_node list" where
  "stop_node s ns =
     (if s < length ns \<and> startedAt (ns ! s) \<noteq> None
      then Inr (ns[s := (ns ! s)\<lparr>stopped := True\<rparr>])
      else Inl InvalidStateError)"

fun stop_each :: "nat list \<Rightarrow> source_node list \<Rightarrow> error option \<times> source_node list" where
  "stop_each [] ns = (None, ns)"
| "stop_each (s # ss) ns =
     (case stop_node s ns of
        Inl e \<Rightarrow> (Some e, ns)
      | Inr ns' \<Rightarrow> stop_each ss ns')"

definition initAudio :: "player \<Rightarrow> player" where
  "initAudio st = (if audioContextOut st = None then st\<lparr>audioContextOut := Some 0\<rparr> else st)"

definition startCoach :: "player \<Rightarrow> player" where
  "startCoach st =
     (initAudio st)\<lparr>coachActive := True,
                     sessionPromise := Some (sessionCount st),
                     sessionCount := Suc (sessionCount st)\<rparr>"

text \<open>
  \<open>onAudio\<close> returns the exception that rejected its promise, if any, and the refs as
  it left them.  The cursor is raised to the clock before the payload is decoded, so a
  payload that fails to decode still leaves the raised cursor behind.  \<open>start(when)\<close>
  throws \<open>RangeError\<close> for a negative time.
\<close>

definition onAudio :: "string \<Rightarrow> player \<Rightarrow> error option \<times> player" where
  "onAudio base64 st =
     (case audioContextOut st of
        None \<Rightarrow> (None, st)
      | Some currentTime \<Rightarrow>
          (let st1 = st\<lparr>nextStartTime := max (nextStartTime st) currentTime\<rparr>
           in case decode base64 of
                Inl e \<Rightarrow> (Some e, st1)
              | Inr data \<Rightarrow>
                  (case decodeAudioData data 24000 1 of
                     Inl e \<Rightarrow> (Some e, st1)
                   | Inr buf \<Rightarrow>
                       if nextStartTime st1 < 0 then (Some RangeError, st1)
                       else
                         (None,
                          st1\<lparr>nodes := nodes st1 @
                                 [\<lparr>buffer = buf, startedAt = Some (nextStartTime st1),
                                   stopped = False\<rparr>],
                               nextStartTime := nextStartTime st1 + duration buf,
                               activeSources := set_add (length (nodes st1)) (activeSources st1)\<rparr>))))"

definition onended :: "nat \<Rightarrow> player \<Rightarrow> player" where
  "onended source st = st\<lparr>activeSources := set_delete source (activeSources st)\<rparr>"

definition onInterrupted :: "player \<Rightarrow> error option \<times> player" where
  "onInterrupted st =
     (case stop_each (activeSources st) (nodes st) of
        (Some e, ns) \<Rightarrow> (Some e, st\<lparr>nodes := ns\<rparr>)
      | (None, ns) \<Rightarrow> (None, st\<lparr>nodes := ns, activeSources := [], nextStartTime := 0\<rparr>))"

definition stopCoach :: "player \<Rightarrow> error option \<times> player" where
  "stopCoach st =
     (let st1 = st\<lparr>coachActive := False,
                    closedSessions := closedSessions st @
                      (case sessionPromise st of None \<Rightarrow> [] | Some s \<Rightarrow> [s]),
                    sessionPromise := None\<rparr>
      in case stop_each (activeSources st1) (nodes st1) of
           (Some e, ns) \<Rightarrow> (Some e, st1\<lparr>nodes := ns\<rparr>)
         | (None, ns) \<Rightarrow> (None, st1\<lparr>nodes := ns, activeSources := []\<rparr>))"

text \<open>
  What can happen to the component: the user starts or stops the coach, the session
  delivers an audio payload or an interruption, a node's \<open>ended\<close> event fires, or the
  output clock advances (it never rewinds).
\<close>

datatype event = StartCoach | Audio string | Interrupted | Ended nat | StopCoach | Tick real

definition tick :: "real \<Rightarrow> player \<Rightarrow> player" where
  "tick dt st =
     (case audioContextOut st of
        None \<Rightarrow> st
      | Some t \<Rightarrow> if 0 \<le> dt then st\<lparr>audioContextOut := Some (t + dt)\<rparr> else st)"

fun step :: "event \<Rightarrow> player \<Rightarrow> player" where
  "step StartCoach st = startCoach st"
| "step (Audio base64) st = snd (onAudio base64 st)"
| "step Interrupted st = snd (onInterrupted st)"
| "step (Ended source) st = onended source st"
| "step StopCoach st = snd (stopCoach st)"
| "step (Tick dt) st = tick dt st"

fun run :: "event list \<Rightarrow> player \<Rightarrow> player" where
  "run [] st = st"
| "run (e # es) st = run es (step e st)"

text \<open>The decoded chunk of a payload, as \<open>onAudio\<close> computes it.\<close>

definition decode_chunk :: "string \<Rightarrow> error + AudioBuffer" where
  "decode_chunk base64 =
     (case decode base64 of Inl e \<Rightarrow> Inl e | Inr data \<Rightarrow> decodeAudioData data 24000 1)"

text \<open>Every node of the active set exists and has been started.\<close>

definition sources_started :: "player \<Rightarrow> bool" where
  "sources_started st \<longleftrightarrow>
     list_all (\<lambda>s. s < length (nodes st) \<and> startedAt (nodes st ! s) \<noteq> None) (activeSources st)"


section \<open>Generation calls (\<open>services/geminiService.ts\<close>)\<close>

text \<open>
  The three functions are modelled from the point where the remote call has returned a
  response.  \<open>JSON.parse\<close> is the platform's parser and is a parameter; a parsed
  value is a \<open>json\<close>, and a property that is absent reads as \<open>undefined\<close>
  (\<open>None\<close>).  \<open>response.text || d\<close> takes \<open>d\<close> when the text is \<open>undefined\<close> or
  empty.  Reading a property of \<open>null\<close> or \<open>undefined\<close> throws \<open>TypeError\<close>.
\<close>

datatype json =
    JNull
  | JBool bool
  | JNum real
  | JStr string
  | JArr "json list"
  | JObj "(string \<times> json) list"





record Blob =
  data :: "string option"









section \<open>Base64: encoding followed by decoding\<close>

lemma encode_loop_map: "encode_loop bytes binary = binary @ map fromCharCode bytes"
  by (induction bytes arbitrary: binary) simp_all

lemma decode_loop_map: "decode_loop s bytes = bytes @ map charCodeAt s"
  by (induction s arbitrary: bytes) simp_all

lemma charCodeAt_fromCharCode: "charCodeAt (fromCharCode b) = b"
proof -
  have "unat b < 256" using unsigned_less [of b, where ?'a = nat] by simp
  then show ?thesis by (simp add: charCodeAt_def fromCharCode_def)
qed

lemma b64_alphabet_distinct: "distinct b64_alphabet"
  by (simp add: b64_alphabet_def)

lemma b64_alphabet_length: "length b64_alphabet = 64"
  by (simp add: b64_alphabet_def)

lemma index_of_nth: "distinct xs \<Longrightarrow> n < length xs \<Longrightarrow> index_of (xs ! n) xs = Some n"
proof (induction xs arbitrary: n)
  case Nil
  then show ?case by simp
next
  case (Cons y ys)
  show ?case
  proof (cases n)
    case 0
    then show ?thesis by simp
  next
    case (Suc m)
    with Cons.prems have "m < length ys" "distinct ys" "ys ! m \<noteq> y"
      by auto
    with Cons.IH [of m] Suc show ?thesis by simp
  qed
qed


lemma b64_value_char: "n < 64 \<Longrightarrow> b64_value (b64_char n) = Some n"
  by (simp add: b64_value_def b64_char_def index_of_nth b64_alphabet_distinct b64_alphabet_length)

lemma b64_char_mem: "n < 64 \<Longrightarrow> b64_char n \<in> set b64_alphabet"
  by (simp add: b64_char_def b64_alphabet_length)

lemma pad_not_alphabet: "CHR ''='' \<notin> set b64_alphabet"
  by (simp add: b64_alphabet_def)

lemma whitespace_not_alphabet: "c \<in> set b64_alphabet \<Longrightarrow> \<not> ascii_whitespace c"
  by (auto simp add: b64_alphabet_def ascii_whitespace_def)

lemma pad_not_whitespace: "\<not> ascii_whitespace CHR ''=''"
  by (simp add: ascii_whitespace_def)

lemma b64_char_not_pad: "n < 64 \<Longrightarrow> b64_char n \<noteq> CHR ''=''"
  using b64_char_mem pad_not_alphabet by metis

lemma b64_char_not_ws: "n < 64 \<Longrightarrow> \<not> ascii_whitespace (b64_char n)"
  using b64_char_mem whitespace_not_alphabet by blast

lemma sextet_1: "b < 256 \<Longrightarrow> a div 4 * 4 + ((a mod 4) * 16 + b div 16) div 16 = (a::nat)"
proof -
  assume "b < 256"
  then have "b div 16 < 16" by simp
  then have "((a mod 4) * 16 + b div 16) div 16 = a mod 4" by simp
  then show ?thesis by simp
qed

lemma sextet_2:
  "b < 256 \<Longrightarrow> c < 256 \<Longrightarrow> (((a mod 4) * 16 + b div 16) mod 16) * 16 + ((b mod 16) * 4 + c div 64) div 4 = (b::nat)"
proof -
  assume b: "b < 256" and "c < 256"
  then have c: "c div 64 < 4" by simp
  from b have "b div 16 < 16" by simp
  then have "((a mod 4) * 16 + b div 16) mod 16 = b div 16" by simp
  moreover have "((b mod 16) * 4 + c div 64) div 4 = b mod 16" using c by simp
  ultimately show ?thesis by simp
qed

lemma sextet_3: "c < 256 \<Longrightarrow> (((b mod 16) * 4 + c div 64) mod 4) * 64 + c mod 64 = (c::nat)"
proof -
  assume "c < 256"
  then have "c div 64 < 4" by simp
  then have "((b mod 16) * 4 + c div 64) mod 4 = c div 64" by simp
  then show ?thesis by simp
qed


lemma sextet_2': "b < 256 \<Longrightarrow> (((a mod 4) * 16 + b div 16) mod 16) * 16 + ((b mod 16) * 4) div 4 = (b::nat)"
  using sextet_2 [of b 0 a] by simp

lemma sextet_1': "a div 4 * 4 + ((a mod 4) * 16) div 16 = (a::nat)"
  using sextet_1 [of 0 a] by simp

lemma b64_encode_groups_length: "length (b64_encode_groups xs) = 4 * ((length xs + 2) div 3)"
proof (induction xs rule: b64_encode_groups.induct)
  case (1 a b c rest)
  have "(length (a # b # c # rest) + 2) div 3 = Suc ((length rest + 2) div 3)" by simp
  with 1 show ?case by simp
qed simp_all

lemma b64_sextets_bound: "\<forall>x\<in>set xs. x < 256 \<Longrightarrow> \<forall>s\<in>set (b64_sextets xs). s < 64"
proof (induction xs rule: b64_sextets.induct)
  case (1 a b c rest)
  then have abc: "a < 256" "b < 256" "c < 256" by simp_all
  then have "a div 4 < 64" "b div 16 < 16" "c div 64 < 4" by simp_all
  moreover have "a mod 4 < 4" "b mod 16 < 16" "c mod 64 < 64" by simp_all
  ultimately have "a div 4 < 64" "(a mod 4) * 16 + b div 16 < 64"
    "(b mod 16) * 4 + c div 64 < 64" "c mod 64 < 64" by linarith+
  with 1 show ?case by simp
next
  case (2 a b)
  then have abc: "a < 256" "b < 256" by simp_all
  then have "a div 4 < 64" "b div 16 < 16" by simp_all
  moreover have "a mod 4 < 4" "b mod 16 < 16" by simp_all
  ultimately have "a div 4 < 64" "(a mod 4) * 16 + b div 16 < 64"
    "(b mod 16) * 4 < 64" by linarith+
  then show ?case by simp
next
  case (3 a)
  then have "a div 4 < 64" by simp
  moreover have "a mod 4 < 4" by simp
  then have "(a mod 4) * 16 < 64" by linarith
  ultimately show ?case by simp
next
  case 4
  show ?case by simp
qed

lemma b64_sextets_length: "length (b64_sextets xs) mod 4 \<noteq> 1"
  by (induction xs rule: b64_sextets.induct) simp_all

lemma b64_decode_sextets: "\<forall>x\<in>set xs. x < 256 \<Longrightarrow> b64_decode_groups (b64_sextets xs) = xs"
proof (induction xs rule: b64_sextets.induct)
  case (1 a b c rest)
  then have "b64_decode_groups (b64_sextets rest) = rest" "b < 256" "c < 256" by simp_all
  then show ?case by (simp add: sextet_1 sextet_2 sextet_3)
next
  case (2 a b)
  then have "b < 256" by simp
  then show ?case using sextet_1 [of b a] sextet_2' [of b a] by simp
next
  case (3 a)
  show ?case using sextet_1' [of a] by simp
next
  case 4
  show ?case by simp
qed

lemma strip_padding_append:
  "2 \<le> length q \<Longrightarrow> strip_padding (p @ q) = p @ strip_padding q"
proof -
  assume "2 \<le> length q"
  then obtain c1 c2 r where q: "rev q = c1 # c2 # r"
    by (cases "rev q"; cases "tl (rev q)") (auto simp: Suc_le_eq)
  then have q': "q = rev r @ [c2, c1]"
    by (metis rev_rev_ident rev.simps(2) append_assoc append_Cons append_Nil)
  show ?thesis
    by (simp add: strip_padding_def q')
qed


lemma strip_padding_id: "s \<noteq> [] \<Longrightarrow> last s \<noteq> CHR ''='' \<Longrightarrow> strip_padding s = s"
  by (cases s rule: rev_cases; cases "butlast s" rule: rev_cases) (auto simp: strip_padding_def)

lemma strip_padding_encode:
  "\<forall>x\<in>set xs. x < 256 \<Longrightarrow> strip_padding (b64_encode_groups xs) = map b64_char (b64_sextets xs)"
proof (induction xs rule: b64_sextets.induct)
  case (1 a b c rest)
  let ?g = "[b64_char (a div 4), b64_char ((a mod 4) * 16 + b div 16),
      b64_char ((b mod 16) * 4 + c div 64), b64_char (c mod 64)]"
  show ?case
  proof (cases rest)
    case Nil
    have "b64_char (c mod 64) \<noteq> CHR ''=''" by (simp add: b64_char_not_pad)
    then have "strip_padding ?g = ?g" by (simp add: strip_padding_id)
    with Nil show ?thesis by simp
  next
    case (Cons r rs)
    then have "2 \<le> length (b64_encode_groups rest)"
      by (simp add: b64_encode_groups_length)
    then have "strip_padding (?g @ b64_encode_groups rest) = ?g @ strip_padding (b64_encode_groups rest)"
      by (rule strip_padding_append)
    with 1 show ?thesis by simp
  qed
next
  case (2 a b)
  then have "b < 256" by simp
  then have "b mod 16 * 4 < 64" by simp
  then have "b64_char (b mod 16 * 4) \<noteq> CHR ''=''" by (rule b64_char_not_pad)
  then show ?case by (simp add: strip_padding_def)
next
  case (3 a)
  have "a mod 4 * 16 < 64" by simp
  then have "b64_char (a mod 4 * 16) \<noteq> CHR ''=''" by (rule b64_char_not_pad)
  then show ?case by (simp add: strip_padding_def)
next
  case 4
  show ?case by (simp add: strip_padding_def)
qed

lemma encode_groups_chars:
  "\<forall>x\<in>set xs. x < 256 \<Longrightarrow>
     \<forall>c\<in>set (b64_encode_groups xs). c = CHR ''='' \<or> c \<in> set (map b64_char (b64_sextets xs))"
  by (induction xs rule: b64_sextets.induct) auto

lemma encode_groups_no_ws:
  assumes xs: "\<forall>x\<in>set xs. x < 256"
  shows "filter (\<lambda>c. \<not> ascii_whitespace c) (b64_encode_groups xs) = b64_encode_groups xs"
proof -
  have six: "\<forall>v\<in>set (b64_sextets xs). v < 64" using xs by (rule b64_sextets_bound)
  have "\<not> ascii_whitespace c" if "c \<in> set (b64_encode_groups xs)" for c
  proof -
    from that encode_groups_chars [OF xs]
    have "c = CHR ''='' \<or> c \<in> set (map b64_char (b64_sextets xs))" by blast
    then show ?thesis
    proof
      assume "c = CHR ''=''"
      then show ?thesis by (simp add: pad_not_whitespace)
    next
      assume "c \<in> set (map b64_char (b64_sextets xs))"
      then obtain v where "v \<in> set (b64_sextets xs)" "c = b64_char v" by auto
      with six show ?thesis by (simp add: b64_char_not_ws)
    qed
  qed
  then show ?thesis by (simp add: filter_id_conv)
qed

lemma sextets_values:
  assumes six: "\<forall>v\<in>set vs. v < 64"
  shows "map (\<lambda>c. the (b64_value c)) (map b64_char vs) = vs"
  using six by (induction vs) (simp_all add: b64_value_char)

lemma sextets_in_alphabet:
  assumes six: "\<forall>v\<in>set vs. v < 64"
  shows "\<not> list_ex (\<lambda>c. b64_value c = None) (map b64_char vs)"
  using six by (induction vs) (simp_all add: b64_value_char)


lemma atob_btoa: "atob (btoa s) = Inr s"
proof -
  define xs :: "nat list" where "xs = map of_char s"
  define e where "e = b64_encode_groups xs"
  define u where "u = map b64_char (b64_sextets xs)"
  have xs: "\<forall>x\<in>set xs. x < 256" by (simp add: xs_def)
  have six: "\<forall>v\<in>set (b64_sextets xs). v < 64" using xs by (rule b64_sextets_bound)
  have f: "filter (\<lambda>c. \<not> ascii_whitespace c) e = e"
    unfolding e_def using xs by (rule encode_groups_no_ws)
  have l: "length e mod 4 = 0" by (simp add: e_def b64_encode_groups_length)
  have p: "strip_padding e = u" unfolding e_def u_def using xs by (rule strip_padding_encode)
  have m: "length u mod 4 \<noteq> 1" using b64_sextets_length [of xs] by (simp add: u_def)
  have v: "map (\<lambda>c. the (b64_value c)) u = b64_sextets xs"
    unfolding u_def using six by (rule sextets_values)
  have n: "\<not> list_ex (\<lambda>c. b64_value c = None) u"
    unfolding u_def using six by (rule sextets_in_alphabet)
  have d: "b64_decode_groups (b64_sextets xs) = xs" using xs by (rule b64_decode_sextets)
  have c: "map char_of xs = s" by (simp add: xs_def comp_def)
  have "atob e = Inr (map char_of (b64_decode_groups (map (\<lambda>c. the (b64_value c)) u)))"
    unfolding atob_def Let_def f using l p m n by simp
  then have "atob e = Inr s" by (simp only: v d c)
  then show ?thesis by (simp only: btoa_def e_def xs_def)
qed

lemma decode_encode_bytes: "decode (encode bytes) = Inr bytes"
proof -
  have "map charCodeAt (map fromCharCode bytes) = bytes"
    by (induction bytes) (simp_all add: charCodeAt_fromCharCode)
  then show ?thesis
    by (simp add: decode_def encode_def atob_btoa encode_loop_map decode_loop_map)
qed

text \<open>
  C1.  For every byte sequence \<open>B\<close>, decoding the encoding of \<open>B\<close> succeeds and gives
  back exactly \<open>B\<close>.
\<close>

theorem decode_encode: "decode (encode B) = Inr B"
proof -
  have "encode_loop B [] = map fromCharCode B" by (simp add: encode_loop_map)
  then have "atob (encode B) = Inr (map fromCharCode B)" by (simp add: encode_def atob_btoa)
  moreover have "decode_loop (map fromCharCode B) [] = B"
    by (induction B) (simp_all add: decode_loop_map charCodeAt_fromCharCode)
  ultimately show ?thesis by (simp add: decode_def)
qed

theorem decode_encode_witness: "decode (encode [72, 105, 255, 0]) = Inr [72, 105, 255, 0]"
  using decode_encode [of "[72, 105, 255, 0]"] by simp

section \<open>Base64: malformed payloads\<close>







section \<open>Typed arrays\<close>

lemma word_cat_bytes: "word_cat (ucast (drop_bit 8 w) :: byte) (ucast w :: byte) = (w :: 16 word)"
  by (rule bit_word_eqI) (auto simp: bit_simps)

lemma int16_view_length: "length (int16_view bs) = length bs div 2"
  by (induction bs rule: int16_view.induct) simp_all


lemma int16_view_bytes: "int16_view (Uint8Array_of_Int16 ws) = ws"
  by (induction ws) (simp_all add: Uint8Array_of_Int16_def int16_bytes_def word_cat_bytes)

lemma Uint8Array_of_Int16_length: "length (Uint8Array_of_Int16 ws) = 2 * length ws"
  by (induction ws) (simp_all add: Uint8Array_of_Int16_def int16_bytes_def)

lemma foldl_typed_set:
  "n \<le> length cd \<Longrightarrow>
   foldl (\<lambda>cd i. typed_set cd i (f i)) cd [0..<n] = map f [0..<n] @ drop n cd"
proof (induction n)
  case 0
  then show ?case by simp
next
  case (Suc n)
  then have n: "n < length cd" by simp
  then have "foldl (\<lambda>cd i. typed_set cd i (f i)) cd [0..<n] = map f [0..<n] @ drop n cd"
    using Suc.IH by simp
  moreover have "typed_set (map f [0..<n] @ drop n cd) n (f n) = map f [0..<n] @ (drop n cd)[0 := f n]"
    using n by (simp add: typed_set_def list_update_append)
  moreover have "(drop n cd)[0 := f n] = f n # drop (Suc n) cd"
    using n by (simp add: Cons_nth_drop_Suc [symmetric])
  ultimately show ?case by simp
qed

lemma fill_channel_whole:
  "fill_channel d nc (real n) ch (replicate n z) = map (\<lambda>i. sample_at d (i * nc + ch)) [0..<n]"
  by (simp add: fill_channel_def foldl_typed_set)

section \<open>Framing of decoded audio\<close>



lemma decodeAudioData_framed:
  assumes len: "length bs = 2 * nc * n" and n: "0 < n" and nc: "0 < nc" "nc \<le> 32"
    and rate: "8000 \<le> rate" "rate \<le> 96000"
  shows "decodeAudioData bs rate nc =
     Inr \<lparr>numberOfChannels = nc, buffer_length = n, sampleRate = rate,
          channelData = map (\<lambda>ch. map (\<lambda>i. sample_at (int16_view bs) (i * nc + ch)) [0..<n]) [0..<nc]\<rparr>"
proof -
  have i: "Int16Array bs = Inr (int16_view bs)" using len by (simp add: Int16Array_def)
  have l: "length (int16_view bs) = nc * n" using len by (simp add: int16_view_length)
  have fc: "real (length (int16_view bs)) / real nc = real n" using nc l by simp
  have cb: "createBuffer nc n rate =
      Inr \<lparr>numberOfChannels = nc, buffer_length = n, sampleRate = rate,
           channelData = replicate nc (replicate n (Finite 0))\<rparr>"
    using n nc rate by (simp add: createBuffer_def)
  have "map (\<lambda>ch. fill_channel (int16_view bs) nc (real n) ch (replicate nc (replicate n (Finite 0)) ! ch)) [0..<nc]
      = map (\<lambda>ch. map (\<lambda>i. sample_at (int16_view bs) (i * nc + ch)) [0..<n]) [0..<nc]"
    by (rule map_cong) (simp_all add: fill_channel_whole)
  then show ?thesis
    by (simp add: decodeAudioData_def i Let_def fc cb)
qed





section \<open>Capture: samples to 16-bit PCM\<close>

lemma pcm16_loop_map: "pcm16_loop block = map to_pcm16 block"
  by (induction block) simp_all

lemma truncate_number_bounds:
  assumes "- 32767 \<le> y" "y \<le> 32767"
  shows "- 32767 \<le> truncate_number y \<and> truncate_number y \<le> 32767"
proof (cases "y < 0")
  case True
  then have "truncate_number y = \<lceil>y\<rceil>" by (simp add: truncate_number_def)
  moreover have "- 32767 \<le> \<lceil>y\<rceil>" using assms(1) by (simp add: le_ceiling_iff)
  moreover have "\<lceil>y\<rceil> \<le> 32767" using assms(2) by (simp add: ceiling_le_iff)
  ultimately show ?thesis by simp
next
  case False
  then have "truncate_number y = \<lfloor>y\<rfloor>" by (simp add: truncate_number_def)
  moreover have "- 32767 \<le> \<lfloor>y\<rfloor>" using assms(1) by (simp add: le_floor_iff)
  moreover have "\<lfloor>y\<rfloor> \<le> 32767" using assms(2) by (simp add: floor_le_iff)
  ultimately show ?thesis by simp
qed

lemma sint_int16: "- 32767 \<le> q \<Longrightarrow> q \<le> 32767 \<Longrightarrow> sint (word_of_int q :: 16 word) = q"
  by (simp add: signed_of_int signed_take_bit_int_eq_self)

lemma clamp_scaled: "- 32767 \<le> max (- 1) (min 1 x) * 32767 \<and> max (- 1) (min 1 x) * 32767 \<le> (32767::real)"
  by (simp add: max_def min_def)

lemma to_pcm16_Finite: "sint (to_pcm16 (Finite x)) = truncate_number (max (- 1) (min 1 x) * 32767)"
proof -
  have "- 32767 \<le> truncate_number (max (- 1) (min 1 x) * 32767) \<and>
        truncate_number (max (- 1) (min 1 x) * 32767) \<le> 32767"
    using clamp_scaled [of x] by (intro truncate_number_bounds) simp_all
  then show ?thesis by (simp add: to_pcm16_def sint_int16)
qed

lemma to_pcm16_zero: "to_pcm16 (Finite 0) = 0"
  by (simp add: to_pcm16_def truncate_number_def)

lemma two_bytes: "0 \<le> x \<Longrightarrow> x < 65536 \<Longrightarrow> x mod 256 + 256 * (x div 256 mod 256) = (x::int)"
proof -
  assume x: "0 \<le> x" "x < 65536"
  then have "x div 256 < 256" by simp
  moreover from x have "0 \<le> x div 256" by (simp add: pos_imp_zdiv_nonneg_iff)
  ultimately have "x div 256 mod 256 = x div 256" by simp
  then show ?thesis by simp
qed

lemma int16_bytes_little_endian:
  "uint (int16_bytes w ! 0) + 256 * uint (int16_bytes w ! 1) = sint w mod 65536"
proof -
  have b0: "uint (ucast w :: byte) = uint w mod 256"
    by (simp add: unsigned_ucast_eq take_bit_eq_mod)
  have "uint (drop_bit 8 w) = uint w div 256"
    by (simp add: drop_bit_eq_div uint_div_distrib)
  then have b1: "uint (ucast (drop_bit 8 w) :: byte) = uint w div 256 mod 256"
    by (simp only: unsigned_ucast_eq take_bit_eq_mod) simp
  have "uint w < 65536" using uint_bounded [of w] by simp
  moreover have "0 \<le> uint w" by simp
  ultimately have "uint w mod 256 + 256 * (uint w div 256 mod 256) = uint w"
    by (rule two_bytes [rotated])
  moreover have "uint w = sint w mod 65536" by (simp add: uint_sint take_bit_eq_mod)
  moreover have "int16_bytes w ! 0 = ucast w" "int16_bytes w ! 1 = ucast (drop_bit 8 w)"
    by (simp_all add: int16_bytes_def)
  ultimately show ?thesis by (simp only: b0 b1)
qed

lemma Uint8Array_of_Int16_nth:
  "i < length ws \<Longrightarrow>
   Uint8Array_of_Int16 ws ! (2 * i) = int16_bytes (ws ! i) ! 0 \<and>
   Uint8Array_of_Int16 ws ! (2 * i + 1) = int16_bytes (ws ! i) ! 1"
proof (induction ws arbitrary: i)
  case Nil
  then show ?case by simp
next
  case (Cons w ws)
  show ?case
  proof (cases i)
    case 0
    then show ?thesis by (simp add: Uint8Array_of_Int16_def int16_bytes_def)
  next
    case (Suc j)
    with Cons.prems have "j < length ws" by simp
    from Cons.IH [OF this] Suc show ?thesis
      by (simp add: Uint8Array_of_Int16_def int16_bytes_def)
  qed
qed

lemma Uint8Array_of_Int16_zero: "Uint8Array_of_Int16 (replicate n 0) = replicate (2 * n) 0"
  by (induction n) (simp_all add: Uint8Array_of_Int16_def int16_bytes_def)

lemma encode_length: "length (encode bytes) = 4 * ((length bytes + 2) div 3)"
  by (simp add: encode_def btoa_def b64_encode_groups_length encode_loop_map)

text \<open>
  C4 (amended).  For every captured block, a finite sample \<open>x\<close> is clamped to
  \<open>[-1, 1]\<close>, multiplied by 32767 and truncated towards zero to a 16-bit signed
  integer; the integers are laid out two bytes each, low byte first.  A block of 4096
  zeros gives 8192 zero bytes, and the encoded payload has \<open>ceil(8192 / 3) * 4\<close>
  characters.
\<close>

theorem capture_pcm:
  "length (pcm16_loop block) = length block \<and>
   (\<forall>i<length block. \<forall>x. block ! i = Finite x \<longrightarrow>
      sint (pcm16_loop block ! i) = truncate_number (max (- 1) (min 1 x) * 32767)) \<and>
   length (Uint8Array_of_Int16 (pcm16_loop block)) = 2 * length block \<and>
   (\<forall>i<length block.
      uint (Uint8Array_of_Int16 (pcm16_loop block) ! (2 * i)) +
      256 * uint (Uint8Array_of_Int16 (pcm16_loop block) ! (2 * i + 1)) =
      sint (pcm16_loop block ! i) mod 65536) \<and>
   Uint8Array_of_Int16 (pcm16_loop (replicate 4096 (Finite 0))) = replicate 8192 0 \<and>
   length (onaudioprocess (replicate 4096 (Finite 0))) = nat \<lceil>8192 / 3 :: real\<rceil> * 4"
proof (intro conjI allI impI)
  show "length (pcm16_loop block) = length block" by (simp add: pcm16_loop_map)
next
  fix i x assume "i < length block" "block ! i = Finite x"
  then show "sint (pcm16_loop block ! i) = truncate_number (max (- 1) (min 1 x) * 32767)"
    by (simp add: pcm16_loop_map to_pcm16_Finite)
next
  show "length (Uint8Array_of_Int16 (pcm16_loop block)) = 2 * length block"
    by (simp add: Uint8Array_of_Int16_length pcm16_loop_map)
next
  fix i assume "i < length block"
  then have "i < length (pcm16_loop block)" by (simp add: pcm16_loop_map)
  then show "uint (Uint8Array_of_Int16 (pcm16_loop block) ! (2 * i)) +
      256 * uint (Uint8Array_of_Int16 (pcm16_loop block) ! (2 * i + 1)) =
      sint (pcm16_loop block ! i) mod 65536"
    by (simp only: Uint8Array_of_Int16_nth int16_bytes_little_endian)
next
  have z: "pcm16_loop (replicate 4096 (Finite 0)) = replicate 4096 0"
    by (simp add: pcm16_loop_map to_pcm16_zero)
  show b: "Uint8Array_of_Int16 (pcm16_loop (replicate 4096 (Finite 0))) = replicate 8192 0"
    using Uint8Array_of_Int16_zero [of 4096] by (simp only: z) simp
  have "\<lceil>8192 / 3 :: real\<rceil> = 2731" by simp
  then have "nat \<lceil>8192 / 3 :: real\<rceil> * 4 = 10924" by simp
  moreover have "length (onaudioprocess (replicate 4096 (Finite 0))) = 10924"
    by (simp only: onaudioprocess_def b encode_length) simp
  ultimately show "length (onaudioprocess (replicate 4096 (Finite 0))) = nat \<lceil>8192 / 3 :: real\<rceil> * 4"
    by simp
qed

theorem capture_pcm_witness:
  "(1::nat) < length [Finite (1 / 2), Finite 2] \<and> [Finite (1 / 2), Finite 2] ! 1 = Finite 2 \<and>
   sint (pcm16_loop [Finite (1 / 2), Finite 2] ! 1) = 32767"
proof -
  have h: "(1::nat) < length [Finite (1 / 2), Finite 2]" "[Finite (1 / 2), Finite 2] ! 1 = Finite 2"
    by simp_all
  with capture_pcm [of "[Finite (1 / 2), Finite 2]"]
  have "sint (pcm16_loop [Finite (1 / 2), Finite 2] ! 1) = truncate_number (max (- 1) (min 1 2) * 32767)"
    by blast
  then have "sint (pcm16_loop [Finite (1 / 2), Finite 2] ! 1) = 32767"
    by (simp add: truncate_number_def)
  with h show ?thesis by blast
qed

text \<open>
  C4 as stated fails: the sample 0.5 is stored as 16383, while rounding
  \<open>0.5 * 32767 = 16383.5\<close> gives 16384.
\<close>

theorem capture_truncates_counterexample:
  "sint (pcm16_loop [Finite (1 / 2)] ! 0) = 16383 \<and>
   round (max (- 1) (min 1 (1 / 2)) * 32767 :: real) = 16384 \<and>
   sint (pcm16_loop [Finite (1 / 2)] ! 0) \<noteq> round (max (- 1) (min 1 (1 / 2)) * 32767 :: real)"
proof -
  have "truncate_number (max (- 1) (min 1 (1 / 2)) * 32767) = 16383"
    by (simp add: truncate_number_def)
  then have "sint (pcm16_loop [Finite (1 / 2)] ! 0) = 16383"
    by (simp add: to_pcm16_Finite)
  moreover have "round (max (- 1) (min 1 (1 / 2)) * 32767 :: real) = 16384"
    by (simp add: round_def)
  ultimately show ?thesis by simp
qed

section \<open>Capture followed by playback decoding\<close>

lemma scaled_error:
  assumes "\<bar>q - y - x\<bar> < 2" and "y = x * 32767"
  shows "\<bar>q / 32768 - x\<bar> < 1 / (16384::real)"
proof -
  have e: "q / 32768 - x = (q - y - x) / 32768" using assms(2) by (simp add: field_simps)
  have "\<bar>(q - y - x) / 32768\<bar> < 2 / 32768" using assms(1) by simp
  then have "\<bar>q / 32768 - x\<bar> < 2 / 32768" by (simp only: e)
  moreover have "2 / 32768 = 1 / (16384::real)" by simp
  ultimately show ?thesis by (simp only:)
qed

lemma quantisation_error:
  assumes "- 1 \<le> x" "x \<le> 1"
  shows "\<bar>real_of_int (truncate_number (x * 32767)) / 32768 - x\<bar> < 1 / 16384"
proof (cases "x < 0")
  case True
  define y where "y = x * 32767"
  from True have "y < 0" by (simp add: y_def)
  then have t: "truncate_number y = \<lceil>y\<rceil>" by (simp add: truncate_number_def)
  have "y \<le> real_of_int \<lceil>y\<rceil>" "real_of_int \<lceil>y\<rceil> < y + 1" by linarith+
  with assms True have "\<bar>real_of_int \<lceil>y\<rceil> - y - x\<bar> < 2" by linarith
  then have "\<bar>real_of_int \<lceil>y\<rceil> / 32768 - x\<bar> < 1 / 16384"
    using y_def by (rule scaled_error)
  then show ?thesis unfolding y_def [symmetric] t .
next
  case False
  define y where "y = x * 32767"
  from False have "\<not> y < 0" by (simp add: y_def)
  then have t: "truncate_number y = \<lfloor>y\<rfloor>" by (simp add: truncate_number_def)
  have "real_of_int \<lfloor>y\<rfloor> \<le> y" "y < real_of_int \<lfloor>y\<rfloor> + 1" by linarith+
  with assms False have "\<bar>real_of_int \<lfloor>y\<rfloor> - y - x\<bar> < 2" by linarith
  then have "\<bar>real_of_int \<lfloor>y\<rfloor> / 32768 - x\<bar> < 1 / 16384"
    using y_def by (rule scaled_error)
  then show ?thesis unfolding y_def [symmetric] t .
qed

lemma to_pcm16_in_range:
  assumes "- 1 \<le> x" "x \<le> 1"
  shows "sint (to_pcm16 (Finite x)) = truncate_number (x * 32767)"
  using assms by (simp add: to_pcm16_Finite max_def min_def)

lemma playback_of_capture:
  assumes "xs \<noteq> []"
  shows "decode (onaudioprocess (map Finite xs)) = Inr (Uint8Array_of_Int16 (pcm16_loop (map Finite xs))) \<and>
     decodeAudioData (Uint8Array_of_Int16 (pcm16_loop (map Finite xs))) 24000 1 =
       Inr \<lparr>numberOfChannels = 1, buffer_length = length xs, sampleRate = 24000,
            channelData = [map (\<lambda>x. Finite (real_of_int (sint (to_pcm16 (Finite x))) / 32768)) xs]\<rparr>"
proof -
  define ws where "ws = pcm16_loop (map Finite xs)"
  define bs where "bs = Uint8Array_of_Int16 ws"
  have l: "length ws = length xs" by (simp add: ws_def pcm16_loop_map)
  have lb: "length bs = 2 * 1 * length xs" by (simp add: bs_def Uint8Array_of_Int16_length l)
  have v: "int16_view bs = ws" by (simp add: bs_def int16_view_bytes)
  have "decodeAudioData bs 24000 1 =
     Inr \<lparr>numberOfChannels = 1, buffer_length = length xs, sampleRate = 24000,
          channelData = map (\<lambda>ch. map (\<lambda>i. sample_at (int16_view bs) (i * 1 + ch)) [0..<length xs]) [0..<1]\<rparr>"
    using lb assms by (intro decodeAudioData_framed) simp_all
  moreover have "map (\<lambda>i. sample_at ws i) [0..<length xs] =
      map (\<lambda>x. Finite (real_of_int (sint (to_pcm16 (Finite x))) / 32768)) xs"
    by (rule nth_equalityI) (simp_all add: sample_at_def l ws_def pcm16_loop_map)
  ultimately have "decodeAudioData bs 24000 1 =
       Inr \<lparr>numberOfChannels = 1, buffer_length = length xs, sampleRate = 24000,
            channelData = [map (\<lambda>x. Finite (real_of_int (sint (to_pcm16 (Finite x))) / 32768)) xs]\<rparr>"
    by (simp add: v)
  moreover have "decode (onaudioprocess (map Finite xs)) = Inr bs"
    by (simp add: onaudioprocess_def decode_encode_bytes bs_def ws_def)
  ultimately show ?thesis by (simp add: bs_def ws_def)
qed

text \<open>
  C5 (amended).  For every non-empty sequence of samples in \<open>[-1, 1]\<close>, the payload of
  the capture path decodes, the playback path turns it into a one-channel buffer of
  the same length, and every reconstructed sample differs from the original by less
  than two quantisation steps, \<open>2 / 32768 = 1 / 16384\<close>.
\<close>

theorem pcm_round_trip:
  assumes "xs \<noteq> []" and "\<forall>x\<in>set xs. - 1 \<le> x \<and> x \<le> 1"
  shows "\<exists>bytes buf rs.
     decode (onaudioprocess (map Finite xs)) = Inr bytes \<and>
     decodeAudioData bytes 24000 1 = Inr buf \<and>
     channelData buf = [map Finite rs] \<and> length rs = length xs \<and>
     (\<forall>i<length xs. \<bar>rs ! i - xs ! i\<bar> < 1 / 16384)"
proof -
  define rs where "rs = map (\<lambda>x. real_of_int (sint (to_pcm16 (Finite x))) / 32768) xs"
  have e: "\<bar>rs ! i - xs ! i\<bar> < 1 / 16384" if "i < length xs" for i
  proof -
    from that assms(2) have r: "- 1 \<le> xs ! i" "xs ! i \<le> 1" by simp_all
    have "rs ! i = real_of_int (sint (to_pcm16 (Finite (xs ! i)))) / 32768"
      using that unfolding rs_def by (rule nth_map)
    also have "\<dots> = real_of_int (truncate_number (xs ! i * 32767)) / 32768"
      by (simp only: to_pcm16_in_range [OF r])
    finally show ?thesis using quantisation_error [OF r] by (simp only:)
  qed
  define buf where "buf = \<lparr>numberOfChannels = 1, buffer_length = length xs, sampleRate = 24000,
            channelData = [map (\<lambda>x. Finite (real_of_int (sint (to_pcm16 (Finite x))) / 32768)) xs]\<rparr>"
  from playback_of_capture [OF assms(1)]
  have d: "decode (onaudioprocess (map Finite xs)) = Inr (Uint8Array_of_Int16 (pcm16_loop (map Finite xs)))"
    and a: "decodeAudioData (Uint8Array_of_Int16 (pcm16_loop (map Finite xs))) 24000 1 = Inr buf"
    unfolding buf_def by blast+
  have c: "channelData buf = [map Finite rs]" by (simp add: buf_def rs_def)
  have l: "length rs = length xs" by (simp add: rs_def)
  from d a c l e show ?thesis by blast
qed

theorem pcm_round_trip_witness:
  "[1 / 2, - 1 :: real] \<noteq> [] \<and> - 1 \<le> (1 / 2 :: real) \<and> (1 / 2 :: real) \<le> 1 \<and>
   - 1 \<le> (- 1 :: real) \<and> (- 1 :: real) \<le> 1 \<and>
   (\<exists>bytes buf rs.
     decode (onaudioprocess (map Finite [1 / 2, - 1])) = Inr bytes \<and>
     decodeAudioData bytes 24000 1 = Inr buf \<and>
     channelData buf = [map Finite rs] \<and> length rs = 2 \<and>
     \<bar>rs ! 0 - 1 / 2\<bar> < 1 / 16384 \<and> \<bar>rs ! 1 - (- 1)\<bar> < 1 / 16384)"
proof -
  have h1: "[1 / 2, - 1 :: real] \<noteq> []" by simp
  have h2: "\<forall>x\<in>set [1 / 2, - 1 :: real]. - 1 \<le> x \<and> x \<le> 1" by simp
  from pcm_round_trip [OF h1 h2] obtain bytes buf rs where
    r: "decode (onaudioprocess (map Finite [1 / 2, - 1])) = Inr bytes"
      "decodeAudioData bytes 24000 1 = Inr buf"
      "channelData buf = [map Finite rs]" "length rs = length [1 / 2, - 1 :: real]"
      "\<forall>i<length [1 / 2, - 1 :: real]. \<bar>rs ! i - [1 / 2, - 1] ! i\<bar> < 1 / 16384"
    by blast
  from r(4) have l: "length rs = 2" by simp
  have "(0::nat) < length [1 / 2, - 1 :: real]" "(1::nat) < length [1 / 2, - 1 :: real]" by simp_all
  with r(5) have "\<bar>rs ! 0 - [1 / 2, - 1] ! 0\<bar> < 1 / 16384" "\<bar>rs ! 1 - [1 / 2, - 1] ! 1\<bar> < 1 / 16384"
    by blast+
  then have e: "\<bar>rs ! 0 - 1 / 2\<bar> < 1 / 16384" "\<bar>rs ! 1 - (- 1)\<bar> < 1 / 16384" by simp_all
  have b: "- 1 \<le> (1 / 2 :: real)" "(1 / 2 :: real) \<le> 1" "- 1 \<le> (- 1 :: real)" "(- 1 :: real) \<le> 1"
    by simp_all
  from h1 b r(1,2,3) l e show ?thesis by blast
qed

text \<open>
  C5 as stated fails: the sample \<open>65535 / 65536\<close> is captured as 32766 and played
  back as \<open>32766 / 32768\<close>, one and a half quantisation steps away.
\<close>

theorem pcm_round_trip_counterexample:
  "- 1 \<le> (65535 / 65536 :: real) \<and> (65535 / 65536 :: real) \<le> 1 \<and>
   decode (onaudioprocess [Finite (65535 / 65536)]) = Inr [254, 127] \<and>
   decodeAudioData [254, 127] 24000 1 =
     Inr \<lparr>numberOfChannels = 1, buffer_length = 1, sampleRate = 24000,
          channelData = [[Finite (16383 / 16384)]]\<rparr> \<and>
   \<not> \<bar>16383 / 16384 - 65535 / 65536\<bar> \<le> (1 / 32768 :: real)"
proof -
  have t: "truncate_number (2147385345 / 65536) = 32766"
    by (simp add: truncate_number_def)
  have p: "to_pcm16 (Finite (65535 / 65536)) = 32766"
    by (simp add: to_pcm16_def t)
  have b: "int16_bytes 32766 = [254, 127]"
    by (simp add: int16_bytes_def drop_bit_eq_div)
  have "decode (onaudioprocess [Finite (65535 / 65536)]) = Inr [254, 127]"
    by (simp add: onaudioprocess_def decode_encode_bytes Uint8Array_of_Int16_def p b)
  moreover have "sint (word_cat (127 :: byte) (254 :: byte) :: 16 word) = 32766"
    by (simp add: word_cat_eq)
  then have "decodeAudioData [254, 127] 24000 1 =
     Inr \<lparr>numberOfChannels = 1, buffer_length = 1, sampleRate = 24000,
          channelData = [[Finite (16383 / 16384)]]\<rparr>"
    by (simp add: decodeAudioData_def Int16Array_def createBuffer_def fill_channel_def
        typed_set_def sample_at_def Let_def del: of_int_sint)
  moreover have "\<not> \<bar>16383 / 16384 - 65535 / 65536\<bar> \<le> (1 / 32768 :: real)" by simp
  ultimately show ?thesis by simp
qed

section \<open>Stopping sources\<close>

lemma stop_node_started:
  assumes "s < length ns" "startedAt (ns ! s) \<noteq> None"
  shows "stop_node s ns = Inr (ns[s := (ns ! s)\<lparr>stopped := True\<rparr>])"
  using assms by (simp add: stop_node_def)

lemma stop_each_started:
  assumes "\<forall>s\<in>set ss. s < length ns \<and> startedAt (ns ! s) \<noteq> None"
  shows "\<exists>ns'. stop_each ss ns = (None, ns') \<and> length ns' = length ns \<and>
           (\<forall>i<length ns. startedAt (ns' ! i) = startedAt (ns ! i) \<and>
                            buffer (ns' ! i) = buffer (ns ! i) \<and>
                            (stopped (ns' ! i) \<longleftrightarrow> stopped (ns ! i) \<or> i \<in> set ss))"
  using assms
proof (induction ss arbitrary: ns)
  case Nil
  then show ?case by simp
next
  case (Cons s ss)
  define ms where "ms = ns[s := (ns ! s)\<lparr>stopped := True\<rparr>]"
  from Cons.prems have s: "s < length ns" "startedAt (ns ! s) \<noteq> None" by simp_all
  then have sn: "stop_node s ns = Inr ms" by (simp add: stop_node_started ms_def)
  have ms: "length ms = length ns"
    "\<And>i. i < length ns \<Longrightarrow> startedAt (ms ! i) = startedAt (ns ! i) \<and> buffer (ms ! i) = buffer (ns ! i) \<and>
        (stopped (ms ! i) \<longleftrightarrow> stopped (ns ! i) \<or> i = s)"
    using s by (auto simp: ms_def nth_list_update)
  from Cons.prems ms have "\<forall>s\<in>set ss. s < length ms \<and> startedAt (ms ! s) \<noteq> None" by simp
  from Cons.IH [OF this] obtain ns' where n: "stop_each ss ms = (None, ns')" "length ns' = length ms"
    "\<forall>i<length ms. startedAt (ns' ! i) = startedAt (ms ! i) \<and> buffer (ns' ! i) = buffer (ms ! i) \<and>
        (stopped (ns' ! i) \<longleftrightarrow> stopped (ms ! i) \<or> i \<in> set ss)"
    by blast
  have "stop_each (s # ss) ns = (None, ns')" using sn n(1) by simp
  moreover have "length ns' = length ns" using n(2) ms(1) by simp
  moreover have "\<forall>i<length ns. startedAt (ns' ! i) = startedAt (ns ! i) \<and> buffer (ns' ! i) = buffer (ns ! i) \<and>
        (stopped (ns' ! i) \<longleftrightarrow> stopped (ns ! i) \<or> i \<in> set (s # ss))"
    using n(3) ms by auto
  ultimately show ?case by blast
qed

lemma sources_started_iff:
  "sources_started st \<longleftrightarrow> (\<forall>s\<in>set (activeSources st). s < length (nodes st) \<and> startedAt (nodes st ! s) \<noteq> None)"
  by (simp add: sources_started_def list_all_iff)

section \<open>Scheduling a chunk\<close>

lemma decodeAudioData_rate:
  assumes "decodeAudioData bs rate nc = Inr buf"
  shows "sampleRate buf = rate \<and> 8000 \<le> rate"
  using assms
  by (auto simp: decodeAudioData_def createBuffer_def Let_def split: sum.splits if_splits)

lemma decode_chunk_duration:
  assumes "decode_chunk b = Inr buf"
  shows "0 \<le> duration buf"
proof -
  from assms obtain bs where "decodeAudioData bs 24000 1 = Inr buf"
    by (auto simp: decode_chunk_def split: sum.splits)
  then have "sampleRate buf = 24000" using decodeAudioData_rate by blast
  then show ?thesis by (simp add: duration_def)
qed

lemma onAudio_chunk:
  "onAudio b st =
     (case audioContextOut st of
        None \<Rightarrow> (None, st)
      | Some t \<Rightarrow>
          (case decode_chunk b of
             Inl e \<Rightarrow> (Some e, st\<lparr>nextStartTime := max (nextStartTime st) t\<rparr>)
           | Inr buf \<Rightarrow>
               if max (nextStartTime st) t < 0
               then (Some RangeError, st\<lparr>nextStartTime := max (nextStartTime st) t\<rparr>)
               else (None, st\<lparr>nodes := nodes st @
                  [\<lparr>buffer = buf, startedAt = Some (max (nextStartTime st) t), stopped = False\<rparr>],
                nextStartTime := max (nextStartTime st) t + duration buf,
                activeSources := set_add (length (nodes st)) (activeSources st)\<rparr>)))"
proof (cases "audioContextOut st")
  case None
  then show ?thesis by (simp add: onAudio_def)
next
  case (Some t)
  show ?thesis
  proof (cases "decode b")
    case (Inl e)
    with Some show ?thesis by (simp add: onAudio_def decode_chunk_def)
  next
    case (Inr bs)
    with Some show ?thesis
      by (cases "decodeAudioData bs 24000 1") (simp_all add: onAudio_def decode_chunk_def Let_def)
  qed
qed

lemma onAudio_no_context: "audioContextOut st = None \<Longrightarrow> onAudio b st = (None, st)"
  by (simp add: onAudio_def)

lemma onAudio_undecodable:
  assumes "audioContextOut st = Some t" "decode_chunk b = Inl e"
  shows "onAudio b st = (Some e, st\<lparr>nextStartTime := max (nextStartTime st) t\<rparr>)"
  using assms by (simp add: onAudio_chunk)

lemma onAudio_negative:
  assumes "audioContextOut st = Some t" "decode_chunk b = Inr buf" "max (nextStartTime st) t < 0"
  shows "onAudio b st = (Some RangeError, st\<lparr>nextStartTime := max (nextStartTime st) t\<rparr>)"
  using assms by (simp add: onAudio_chunk)

lemma onAudio_scheduled:
  assumes "audioContextOut st = Some t" "decode_chunk b = Inr buf" "0 \<le> max (nextStartTime st) t"
  shows "onAudio b st =
     (None, st\<lparr>nodes := nodes st @
                  [\<lparr>buffer = buf, startedAt = Some (max (nextStartTime st) t), stopped = False\<rparr>],
                nextStartTime := max (nextStartTime st) t + duration buf,
                activeSources := set_add (length (nodes st)) (activeSources st)\<rparr>)"
proof -
  from assms(3) have "\<not> max (nextStartTime st) t < 0" by linarith
  with assms(1,2) show ?thesis by (simp only: onAudio_chunk) simp
qed

lemma onAudio_cases:
  obtains (no_context) "audioContextOut st = None" "onAudio b st = (None, st)"
  | (failed) t e where "audioContextOut st = Some t"
      "onAudio b st = (Some e, st\<lparr>nextStartTime := max (nextStartTime st) t\<rparr>)"
  | (scheduled) t buf where "audioContextOut st = Some t" "decode_chunk b = Inr buf"
      "0 \<le> max (nextStartTime st) t"
      "onAudio b st =
        (None, st\<lparr>nodes := nodes st @
                  [\<lparr>buffer = buf, startedAt = Some (max (nextStartTime st) t), stopped = False\<rparr>],
                nextStartTime := max (nextStartTime st) t + duration buf,
                activeSources := set_add (length (nodes st)) (activeSources st)\<rparr>)"
proof (cases "audioContextOut st")
  case None
  then show ?thesis using no_context onAudio_no_context by blast
next
  case (Some t)
  show ?thesis
  proof (cases "decode_chunk b")
    case (Inl e)
    with Some show ?thesis using failed onAudio_undecodable by blast
  next
    case (Inr buf)
    show ?thesis
    proof (cases "max (nextStartTime st) t < 0")
      case True
      with Some Inr show ?thesis using failed onAudio_negative by blast
    next
      case False
      then have "0 \<le> max (nextStartTime st) t" by linarith
      with Some Inr show ?thesis using scheduled onAudio_scheduled by blast
    qed
  qed
qed

lemma onAudio_cursor: "nextStartTime st \<le> nextStartTime (snd (onAudio b st))"
proof (cases rule: onAudio_cases [where st = st and b = b])
  case no_context
  then show ?thesis by simp
next
  case (failed t e)
  then show ?thesis by simp
next
  case (scheduled t buf)
  then have "0 \<le> duration buf" using decode_chunk_duration by blast
  with scheduled show ?thesis by simp
qed


lemma stopCoach_cursor: "nextStartTime (snd (stopCoach st)) = nextStartTime st"
  by (simp add: stopCoach_def Let_def split: prod.splits option.splits)

lemma step_cursor_mono: "e \<noteq> Interrupted \<Longrightarrow> nextStartTime st \<le> nextStartTime (step e st)"
proof (cases e)
  case (Audio b)
  then show ?thesis using onAudio_cursor [of st b] by simp
next
  case StopCoach
  then show ?thesis by (simp add: stopCoach_cursor)
next
  case (Tick dt)
  then show ?thesis by (simp add: tick_def split: option.splits)
qed (simp_all add: startCoach_def initAudio_def onended_def)

section \<open>Invariants of the player\<close>

lemma onAudio_sources_started:
  assumes "sources_started st"
  shows "sources_started (snd (onAudio b st))"
proof (cases rule: onAudio_cases [where st = st and b = b])
  case no_context
  with assms show ?thesis by simp
next
  case (failed t e)
  with assms show ?thesis by (simp add: sources_started_iff)
next
  case (scheduled t buf)
  have "s < length (nodes st) + 1 \<and>
        startedAt ((nodes st @ [\<lparr>buffer = buf, startedAt = Some (max (nextStartTime st) t), stopped = False\<rparr>]) ! s) \<noteq> None"
    if "s \<in> set (set_add (length (nodes st)) (activeSources st))" for s
  proof (cases "s = length (nodes st)")
    case True
    then show ?thesis by simp
  next
    case False
    with that have "s \<in> set (activeSources st)" by (auto simp: set_add_def split: if_splits)
    with assms have "s < length (nodes st)" "startedAt (nodes st ! s) \<noteq> None"
      by (simp_all add: sources_started_iff)
    then show ?thesis by (simp add: nth_append)
  qed
  with scheduled(4) show ?thesis by (simp add: sources_started_iff)
qed

lemma onInterrupted_started:
  assumes "sources_started st"
  shows "\<exists>ns. onInterrupted st = (None, st\<lparr>nodes := ns, activeSources := [], nextStartTime := 0\<rparr>) \<and>
     length ns = length (nodes st) \<and>
     (\<forall>i<length (nodes st). startedAt (ns ! i) = startedAt (nodes st ! i) \<and>
        buffer (ns ! i) = buffer (nodes st ! i) \<and>
        (stopped (ns ! i) \<longleftrightarrow> stopped (nodes st ! i) \<or> i \<in> set (activeSources st)))"
proof -
  from assms have "\<forall>s\<in>set (activeSources st). s < length (nodes st) \<and> startedAt (nodes st ! s) \<noteq> None"
    by (simp add: sources_started_iff)
  from stop_each_started [OF this] obtain ns where
    ns: "stop_each (activeSources st) (nodes st) = (None, ns)" "length ns = length (nodes st)"
    "\<forall>i<length (nodes st). startedAt (ns ! i) = startedAt (nodes st ! i) \<and>
        buffer (ns ! i) = buffer (nodes st ! i) \<and>
        (stopped (ns ! i) \<longleftrightarrow> stopped (nodes st ! i) \<or> i \<in> set (activeSources st))"
    by blast
  from ns(1) have "onInterrupted st = (None, st\<lparr>nodes := ns, activeSources := [], nextStartTime := 0\<rparr>)"
    by (simp add: onInterrupted_def)
  with ns(2,3) show ?thesis by blast
qed

lemma stopCoach_started:
  assumes "sources_started st"
  shows "\<exists>ns. stopCoach st =
       (None, st\<lparr>coachActive := False,
                 closedSessions := closedSessions st @
                   (case sessionPromise st of None \<Rightarrow> [] | Some s \<Rightarrow> [s]),
                 sessionPromise := None, nodes := ns, activeSources := []\<rparr>) \<and>
     length ns = length (nodes st) \<and>
     (\<forall>i<length (nodes st). startedAt (ns ! i) = startedAt (nodes st ! i) \<and>
        buffer (ns ! i) = buffer (nodes st ! i) \<and>
        (stopped (ns ! i) \<longleftrightarrow> stopped (nodes st ! i) \<or> i \<in> set (activeSources st)))"
proof -
  from assms have "\<forall>s\<in>set (activeSources st). s < length (nodes st) \<and> startedAt (nodes st ! s) \<noteq> None"
    by (simp add: sources_started_iff)
  from stop_each_started [OF this] obtain ns where
    ns: "stop_each (activeSources st) (nodes st) = (None, ns)" "length ns = length (nodes st)"
    "\<forall>i<length (nodes st). startedAt (ns ! i) = startedAt (nodes st ! i) \<and>
        buffer (ns ! i) = buffer (nodes st ! i) \<and>
        (stopped (ns ! i) \<longleftrightarrow> stopped (nodes st ! i) \<or> i \<in> set (activeSources st))"
    by blast
  from ns(1) have "stopCoach st =
       (None, st\<lparr>coachActive := False,
                 closedSessions := closedSessions st @
                   (case sessionPromise st of None \<Rightarrow> [] | Some s \<Rightarrow> [s]),
                 sessionPromise := None, nodes := ns, activeSources := []\<rparr>)"
    by (simp add: stopCoach_def Let_def)
  with ns(2,3) show ?thesis by blast
qed

lemma step_sources_started:
  assumes "sources_started st"
  shows "sources_started (step e st)"
proof (cases e)
  case StartCoach
  with assms show ?thesis by (simp add: sources_started_iff startCoach_def initAudio_def)
next
  case (Audio b)
  with assms show ?thesis by (simp add: onAudio_sources_started)
next
  case Interrupted
  from onInterrupted_started [OF assms] obtain ns where
    "onInterrupted st = (None, st\<lparr>nodes := ns, activeSources := [], nextStartTime := 0\<rparr>)" by blast
  with Interrupted show ?thesis by (simp add: sources_started_iff)
next
  case (Ended s)
  with assms show ?thesis by (simp add: sources_started_iff onended_def set_delete_def)
next
  case StopCoach
  from stopCoach_started [OF assms] obtain ns where
    "stopCoach st = (None, st\<lparr>coachActive := False,
                 closedSessions := closedSessions st @
                   (case sessionPromise st of None \<Rightarrow> [] | Some s \<Rightarrow> [s]),
                 sessionPromise := None, nodes := ns, activeSources := []\<rparr>)" by blast
  with StopCoach show ?thesis by (simp add: sources_started_iff)
next
  case (Tick dt)
  with assms show ?thesis by (simp add: sources_started_iff tick_def split: option.splits)
qed

lemma run_sources_started: "sources_started st \<Longrightarrow> sources_started (run es st)"
  by (induction es arbitrary: st) (simp_all add: step_sources_started)

lemma initial_sources_started: "sources_started initial"
  by (simp add: sources_started_def initial_def)

lemma reachable_sources_started: "sources_started (run es initial)"
  using initial_sources_started by (rule run_sources_started)




section \<open>Interruption, stopping and the cursor\<close>

lemma decode_silent_frame: "decode ''AAA='' = Inr [0, 0]"
  by (simp add: decode_def atob_def ascii_whitespace_def strip_padding_def b64_value_def
      b64_alphabet_def charCodeAt_def)

lemma decode_chunk_silent_frame:
  "decode_chunk ''AAA='' =
     Inr \<lparr>numberOfChannels = 1, buffer_length = 1, sampleRate = 24000, channelData = [[Finite 0]]\<rparr>"
  by (simp add: decode_chunk_def decode_silent_frame decodeAudioData_def Int16Array_def
      createBuffer_def fill_channel_def typed_set_def sample_at_def Let_def)

lemma started_state: "startCoach initial =
    \<lparr>audioContextOut = Some 0, nextStartTime = 0, activeSources = [], nodes = [],
     coachActive = True, sessionPromise = Some 0, sessionCount = 1, closedSessions = []\<rparr>"
  by (simp add: startCoach_def initAudio_def initial_def)

lemma one_chunk_state:
  "run [StartCoach, Audio ''AAA=''] initial =
    \<lparr>audioContextOut = Some 0, nextStartTime = 1 / 24000, activeSources = [0],
     nodes = [\<lparr>buffer = \<lparr>numberOfChannels = 1, buffer_length = 1, sampleRate = 24000,
                            channelData = [[Finite 0]]\<rparr>,
               startedAt = Some 0, stopped = False\<rparr>],
     coachActive = True, sessionPromise = Some 0, sessionCount = 1, closedSessions = []\<rparr>"
  by (simp add: started_state onAudio_chunk decode_chunk_silent_frame duration_def set_add_def)

text \<open>
  C3.  In every state the component can reach, each node of the active set has been
  started; in such a state \<open>onInterrupted\<close> raises nothing, stops every node of the
  active set, empties the set and sets the cursor to zero, and changes nothing else.
  With an empty active set it only sets the cursor to zero.
\<close>

theorem onInterrupted_stops_all:
  "sources_started (run es initial) \<and>
   (sources_started st \<longrightarrow>
      (\<exists>ns. onInterrupted st = (None, st\<lparr>nodes := ns, activeSources := [], nextStartTime := 0\<rparr>) \<and>
         length ns = length (nodes st) \<and>
         (\<forall>s\<in>set (activeSources st). s < length ns \<and> stopped (ns ! s)))) \<and>
   (activeSources st = [] \<longrightarrow> onInterrupted st = (None, st\<lparr>nextStartTime := 0\<rparr>))"
proof (intro conjI impI)
  show "sources_started (run es initial)" by (rule reachable_sources_started)
next
  assume a: "sources_started st"
  from onInterrupted_started [OF a] obtain ns where
    ns: "onInterrupted st = (None, st\<lparr>nodes := ns, activeSources := [], nextStartTime := 0\<rparr>)"
    "length ns = length (nodes st)"
    "\<forall>i<length (nodes st). startedAt (ns ! i) = startedAt (nodes st ! i) \<and>
        buffer (ns ! i) = buffer (nodes st ! i) \<and>
        (stopped (ns ! i) \<longleftrightarrow> stopped (nodes st ! i) \<or> i \<in> set (activeSources st))"
    by blast
  from a ns(2,3) have "\<forall>s\<in>set (activeSources st). s < length ns \<and> stopped (ns ! s)"
    by (simp add: sources_started_iff)
  with ns(1,2) show "\<exists>ns. onInterrupted st = (None, st\<lparr>nodes := ns, activeSources := [], nextStartTime := 0\<rparr>) \<and>
         length ns = length (nodes st) \<and>
         (\<forall>s\<in>set (activeSources st). s < length ns \<and> stopped (ns ! s))" by blast
next
  assume "activeSources st = []"
  then show "onInterrupted st = (None, st\<lparr>nextStartTime := 0\<rparr>)"
    by (simp add: onInterrupted_def)
qed

theorem onInterrupted_stops_all_witness:
  "sources_started (run [StartCoach, Audio ''AAA=''] initial) \<and>
   activeSources (run [StartCoach, Audio ''AAA=''] initial) = [0] \<and>
   (\<exists>ns. fst (onInterrupted (run [StartCoach, Audio ''AAA=''] initial)) = None \<and>
      nodes (snd (onInterrupted (run [StartCoach, Audio ''AAA=''] initial))) = ns \<and>
      activeSources (snd (onInterrupted (run [StartCoach, Audio ''AAA=''] initial))) = [] \<and>
      nextStartTime (snd (onInterrupted (run [StartCoach, Audio ''AAA=''] initial))) = 0 \<and>
      stopped (ns ! 0)) \<and>
   activeSources initial = [] \<and>
   onInterrupted initial = (None, initial\<lparr>nextStartTime := 0\<rparr>)"
proof -
  define st where "st = run [StartCoach, Audio ''AAA=''] initial"
  have h1: "sources_started st"
    using onInterrupted_stops_all [of "[StartCoach, Audio ''AAA='']" st] by (simp add: st_def)
  have a: "activeSources st = [0]" unfolding st_def one_chunk_state by simp
  from h1 onInterrupted_stops_all [of "[]" st] obtain ns where
    ns: "onInterrupted st = (None, st\<lparr>nodes := ns, activeSources := [], nextStartTime := 0\<rparr>)"
    "\<forall>s\<in>set (activeSources st). s < length ns \<and> stopped (ns ! s)" by blast
  from ns(2) a have "stopped (ns ! 0)" by simp
  with ns(1) have "\<exists>ns. fst (onInterrupted st) = None \<and> nodes (snd (onInterrupted st)) = ns \<and>
      activeSources (snd (onInterrupted st)) = [] \<and> nextStartTime (snd (onInterrupted st)) = 0 \<and>
      stopped (ns ! 0)" by simp
  moreover have h2: "activeSources initial = []" by (simp add: initial_def)
  moreover from h2 onInterrupted_stops_all [of "[]" initial]
  have "onInterrupted initial = (None, initial\<lparr>nextStartTime := 0\<rparr>)" by blast
  ultimately show ?thesis using h1 a unfolding st_def by blast
qed

text \<open>
  C10.  \<open>stopCoach\<close> leaves \<open>nextStartTime\<close> as it was; it stops every node of the
  active set, empties the set, calls \<open>close\<close> on the session handle and forgets the
  handle.  No event other than the interruption lowers the cursor, and the interruption
  sets it to zero.
\<close>

theorem stopCoach_keeps_cursor:
  "nextStartTime (snd (stopCoach st)) = nextStartTime st \<and>
   (sources_started st \<longrightarrow>
      (\<exists>ns. stopCoach st =
          (None, st\<lparr>coachActive := False,
                    closedSessions := closedSessions st @
                      (case sessionPromise st of None \<Rightarrow> [] | Some h \<Rightarrow> [h]),
                    sessionPromise := None, nodes := ns, activeSources := []\<rparr>) \<and>
         length ns = length (nodes st) \<and>
         (\<forall>s\<in>set (activeSources st). s < length ns \<and> stopped (ns ! s)))) \<and>
   (\<forall>h. sessionPromise st = Some h \<longrightarrow>
      h \<in> set (closedSessions (snd (stopCoach st))) \<and> sessionPromise (snd (stopCoach st)) = None) \<and>
   (e \<noteq> Interrupted \<longrightarrow> nextStartTime st \<le> nextStartTime (step e st)) \<and>
   (sources_started st \<longrightarrow> nextStartTime (step Interrupted st) = 0)"
proof (intro conjI impI allI)
  show "nextStartTime (snd (stopCoach st)) = nextStartTime st" by (rule stopCoach_cursor)
next
  assume a: "sources_started st"
  from stopCoach_started [OF a] obtain ns where
    ns: "stopCoach st =
       (None, st\<lparr>coachActive := False,
                 closedSessions := closedSessions st @
                   (case sessionPromise st of None \<Rightarrow> [] | Some s \<Rightarrow> [s]),
                 sessionPromise := None, nodes := ns, activeSources := []\<rparr>)"
    "length ns = length (nodes st)"
    "\<forall>i<length (nodes st). startedAt (ns ! i) = startedAt (nodes st ! i) \<and>
        buffer (ns ! i) = buffer (nodes st ! i) \<and>
        (stopped (ns ! i) \<longleftrightarrow> stopped (nodes st ! i) \<or> i \<in> set (activeSources st))"
    by blast
  from a ns(2,3) have "\<forall>s\<in>set (activeSources st). s < length ns \<and> stopped (ns ! s)"
    by (simp add: sources_started_iff)
  with ns(1,2) show "\<exists>ns. stopCoach st =
          (None, st\<lparr>coachActive := False,
                    closedSessions := closedSessions st @
                      (case sessionPromise st of None \<Rightarrow> [] | Some h \<Rightarrow> [h]),
                    sessionPromise := None, nodes := ns, activeSources := []\<rparr>) \<and>
         length ns = length (nodes st) \<and>
         (\<forall>s\<in>set (activeSources st). s < length ns \<and> stopped (ns ! s))" by blast
next
  fix h assume "sessionPromise st = Some h"
  then show "h \<in> set (closedSessions (snd (stopCoach st)))"
    by (simp add: stopCoach_def Let_def split: prod.splits option.splits)
next
  fix h assume "sessionPromise st = Some h"
  show "sessionPromise (snd (stopCoach st)) = None"
    by (simp add: stopCoach_def Let_def split: prod.splits option.splits)
next
  assume "e \<noteq> Interrupted"
  then show "nextStartTime st \<le> nextStartTime (step e st)" by (rule step_cursor_mono)
next
  assume a: "sources_started st"
  from onInterrupted_started [OF a] obtain ns where
    "onInterrupted st = (None, st\<lparr>nodes := ns, activeSources := [], nextStartTime := 0\<rparr>)" by blast
  then show "nextStartTime (step Interrupted st) = 0" by simp
qed

theorem stopCoach_keeps_cursor_witness:
  "sources_started (run [StartCoach, Audio ''AAA=''] initial) \<and>
   sessionPromise (run [StartCoach, Audio ''AAA=''] initial) = Some 0 \<and>
   StopCoach \<noteq> Interrupted \<and>
   nextStartTime (run [StartCoach, Audio ''AAA=''] initial) = 1 / 24000 \<and>
   nextStartTime (snd (stopCoach (run [StartCoach, Audio ''AAA=''] initial))) = 1 / 24000 \<and>
   activeSources (snd (stopCoach (run [StartCoach, Audio ''AAA=''] initial))) = [] \<and>
   0 \<in> set (closedSessions (snd (stopCoach (run [StartCoach, Audio ''AAA=''] initial)))) \<and>
   nextStartTime (run [StartCoach, Audio ''AAA=''] initial)
     \<le> nextStartTime (step StopCoach (run [StartCoach, Audio ''AAA=''] initial)) \<and>
   nextStartTime (step Interrupted (run [StartCoach, Audio ''AAA=''] initial)) = 0"
proof -
  define st where "st = run [StartCoach, Audio ''AAA=''] initial"
  have h1: "sources_started st" unfolding st_def by (rule reachable_sources_started)
  have h2: "sessionPromise st = Some 0" unfolding st_def one_chunk_state by simp
  have h3: "StopCoach \<noteq> Interrupted" by simp
  have c: "nextStartTime st = 1 / 24000" unfolding st_def one_chunk_state by simp
  note t = stopCoach_keeps_cursor [of st StopCoach]
  from t c have "nextStartTime (snd (stopCoach st)) = 1 / 24000" by simp
  moreover from t h1 have "activeSources (snd (stopCoach st)) = []" by auto
  moreover from t h2 have "0 \<in> set (closedSessions (snd (stopCoach st)))" by blast
  moreover from t h3 have "nextStartTime st \<le> nextStartTime (step StopCoach st)" by blast
  moreover from t h1 have "nextStartTime (step Interrupted st) = 0" by blast
  ultimately show ?thesis using h1 h2 h3 c unfolding st_def by blast
qed




section \<open>Consecutive chunks\<close>







section \<open>Fallbacks of the generation calls\<close>




end
